theory Spec2Isabelle
  imports Main "HOL-Library.Sublist"
begin

section \<open>Strings and the library calls of \<^verbatim>\<open>cli.py\<close>\<close>

text \<open>
  A Python \<^verbatim>\<open>str\<close> is modelled as the byte string of its UTF-8 encoding (\<^typ>\<open>string\<close>).
  Concatenation, the search for the ASCII indent marker, splitting and joining on it, and
  the ANSI escape sequences act on the encoding exactly as they act on the code points,
  because a byte below 128 never occurs inside a multi-byte sequence. The two glyphs and
  the small-caps letters are written as their UTF-8 bytes.
\<close>

abbreviation ESC :: char where "ESC \<equiv> CHR 0x1B"
abbreviation NL :: char where "NL \<equiv> CHR 0x0A"
abbreviation TAB :: char where "TAB \<equiv> CHR 0x09"

datatype error = KeyError string | AttributeError | ValueError

text \<open>\<^verbatim>\<open>sub in s\<close> for strings: \<^verbatim>\<open>sub\<close> occurs at some position of \<^verbatim>\<open>s\<close>.\<close>

fun contains :: "string \<Rightarrow> string \<Rightarrow> bool" where
  "contains sub [] = (sub = [])"
| "contains sub (c # cs) = (prefix sub (c # cs) \<or> contains sub cs)"

text \<open>
  \<^verbatim>\<open>s.split(sep)\<close> for a non-empty \<^verbatim>\<open>sep\<close>: the string is cut at the leftmost
  occurrences of \<^verbatim>\<open>sep\<close>, which do not overlap. The result is never empty, so the
  \<open>[]\<close> branch of the case below is never taken.
\<close>

function split_str :: "string \<Rightarrow> string \<Rightarrow> string list" where
  "split_str sep [] = [[]]"
| "split_str sep (c # cs) =
     (if sep \<noteq> [] \<and> prefix sep (c # cs)
      then [] # split_str sep (drop (length sep) (c # cs))
      else (case split_str sep cs of
              p # ps \<Rightarrow> (c # p) # ps
            | [] \<Rightarrow> [[c]]))"
  by pat_completeness auto
termination
  by (relation "measure (\<lambda>(sep, s). length s)") auto

text \<open>\<^verbatim>\<open>s.split(sep)\<close> raises \<^verbatim>\<open>ValueError\<close> on an empty separator.\<close>

definition str_split :: "string \<Rightarrow> string \<Rightarrow> error + string list" where
  "str_split s sep = (if sep = [] then Inl ValueError else Inr (split_str sep s))"

text \<open>\<^verbatim>\<open>sep.join(xs)\<close>.\<close>

fun join_str :: "string \<Rightarrow> string list \<Rightarrow> string" where
  "join_str sep [] = []"
| "join_str sep [x] = x"
| "join_str sep (x # y # ys) = x @ sep @ join_str sep (y # ys)"

text \<open>
  \<^verbatim>\<open>click.style(text, fg=..., bold=...)\<close>: the colour code, the bold code, the text and the
  reset-all code \<^verbatim>\<open>ESC[0m\<close>. Only the colours that \<^verbatim>\<open>cli.py\<close> names are modelled.
\<close>

datatype color = Red | Green | Cyan | Reset

fun ansi_colors :: "color \<Rightarrow> string" where
  "ansi_colors Red = ''31''"
| "ansi_colors Green = ''32''"
| "ansi_colors Cyan = ''36''"
| "ansi_colors Reset = ''39''"

definition ansi_reset_all :: string where
  "ansi_reset_all = ESC # ''[0m''"

definition style :: "string \<Rightarrow> color option \<Rightarrow> bool option \<Rightarrow> string" where
  "style text fg bold =
     (case fg of None \<Rightarrow> [] | Some c \<Rightarrow> ESC # ''['' @ ansi_colors c @ ''m'')
     @ (case bold of None \<Rightarrow> [] | Some b \<Rightarrow> ESC # ''['' @ (if b then ''1'' else ''22'') @ ''m'')
     @ text @ ansi_reset_all"

text \<open>
  Modelled from the spec: "stripped of color codes". The repository has no such function;
  the model removes every ANSI sequence \<^verbatim>\<open>ESC [ params letter\<close>, scanning from the left,
  where params are characters of \<^verbatim>\<open>;?0-9\<close> and the letter is an ASCII letter
  (the pattern \<^verbatim>\<open>\033\[[;?0-9]*[a-zA-Z]\<close> of click's \<^verbatim>\<open>unstyle\<close>).
\<close>

definition is_param :: "char \<Rightarrow> bool" where
  "is_param c = (c \<in> set '';?0123456789'')"

definition is_letter :: "char \<Rightarrow> bool" where
  "is_letter c = (let n = (of_char c :: nat) in (65 \<le> n \<and> n \<le> 90) \<or> (97 \<le> n \<and> n \<le> 122))"

definition match_csi :: "string \<Rightarrow> string option" where
  "match_csi cs =
     (case cs of
        [] \<Rightarrow> None
      | b # r \<Rightarrow>
          if b = CHR ''[''
          then (case dropWhile is_param r of
                  [] \<Rightarrow> None
                | l # r' \<Rightarrow> if is_letter l then Some r' else None)
          else None)"

function strip_ansi :: "string \<Rightarrow> string" where
  "strip_ansi [] = []"
| "strip_ansi (c # cs) =
     (if c = ESC
      then (case match_csi cs of
              Some r \<Rightarrow> strip_ansi r
            | None \<Rightarrow> c # strip_ansi cs)
      else c # strip_ansi cs)"
  by pat_completeness auto
termination
proof (relation "measure length")
  fix c cs r
  assume "match_csi cs = Some r"
  then obtain b t l where "cs = b # t" and "dropWhile is_param t = l # r"
    by (cases cs) (auto simp: match_csi_def split: if_splits list.splits)
  then have "length (l # r) \<le> length t" and "length cs = Suc (length t)"
    by (metis length_dropWhile_le, simp)
  then show "(r, c # cs) \<in> measure length" by simp
qed simp_all

section \<open>The logger\<close>

text \<open>
  Modelled from the spec: the class \<^verbatim>\<open>Log\<close> is imported from \<^verbatim>\<open>tester.py\<close>, which is not
  part of the sources; a log entry has a name, a boolean status and optional details.
\<close>

record Log =
  name :: string
  status :: bool
  details :: "string option"

record CustomLogger =
  eq_dict :: "string \<rightharpoonup> int"
  level :: int
  width :: int
  table_indent :: string

text \<open>\<^verbatim>\<open>d[k]\<close> raises \<^verbatim>\<open>KeyError\<close> when the key is missing.\<close>

definition getitem :: "(string \<rightharpoonup> int) \<Rightarrow> string \<Rightarrow> error + int" where
  "getitem d k = (case d k of None \<Rightarrow> Inl (KeyError k) | Some v \<Rightarrow> Inr v)"

text \<open>
  The constructor: \<open>eq_levels\<close> is the dictionary literal assigned to \<^verbatim>\<open>self._eq\<close>, and
  \<open>new_logger n\<close> is the object it builds once the lookup of the level name gave \<open>n\<close>.
\<close>

definition eq_levels :: "string \<rightharpoonup> int" where
  "eq_levels = [''minimal'' \<mapsto> 10, ''details'' \<mapsto> 5, ''verbose'' \<mapsto> 0]"

definition new_logger :: "int \<Rightarrow> CustomLogger" where
  "new_logger n = \<lparr>eq_dict = eq_levels, level = n, width = 88, table_indent = NL # ''    ''\<rparr>"

definition CustomLogger_init :: "string \<Rightarrow> error + CustomLogger" where
  "CustomLogger_init lvl =
     (case getitem eq_levels lvl of
        Inl e \<Rightarrow> Inl e
      | Inr n \<Rightarrow> Inr (new_logger n))"

text \<open>
  \<^verbatim>\<open>_print\<close>: the result is the message handed to \<^verbatim>\<open>click.echo\<close>, or \<open>None\<close> when the
  gate keeps it back.
\<close>

definition print :: "CustomLogger \<Rightarrow> string \<Rightarrow> string \<Rightarrow> int \<Rightarrow> color option \<Rightarrow> bool option
    \<Rightarrow> error + string option" where
  "print lg s lvl indent col bold =
     (case getitem (eq_dict lg) lvl of
        Inl e \<Rightarrow> Inl e
      | Inr n \<Rightarrow>
          if n \<ge> level lg
          then Inr (Some (style (replicate (nat indent) TAB @ s) col bold))
          else Inr None)"

definition small_caps_map :: "char \<rightharpoonup> string" where
  "small_caps_map = map_of
    [(CHR ''a'', [CHR 0xE1, CHR 0xB4, CHR 0x80]),
     (CHR ''b'', [CHR 0xCA, CHR 0x99]),
     (CHR ''c'', [CHR 0xE1, CHR 0xB4, CHR 0x84]),
     (CHR ''d'', [CHR 0xE1, CHR 0xB4, CHR 0x85]),
     (CHR ''e'', [CHR 0xE1, CHR 0xB4, CHR 0x87]),
     (CHR ''f'', [CHR 0xEA, CHR 0x9C, CHR 0xB0]),
     (CHR ''g'', [CHR 0xC9, CHR 0xA2]),
     (CHR ''h'', [CHR 0xCA, CHR 0x9C]),
     (CHR ''i'', [CHR 0xC9, CHR 0xAA]),
     (CHR ''j'', [CHR 0xE1, CHR 0xB4, CHR 0x8A]),
     (CHR ''k'', [CHR 0xE1, CHR 0xB4, CHR 0x8B]),
     (CHR ''l'', [CHR 0xCA, CHR 0x9F]),
     (CHR ''m'', [CHR 0xE1, CHR 0xB4, CHR 0x8D]),
     (CHR ''n'', [CHR 0xC9, CHR 0xB4]),
     (CHR ''o'', [CHR 0xE1, CHR 0xB4, CHR 0x8F]),
     (CHR ''p'', [CHR 0xE1, CHR 0xB4, CHR 0x98]),
     (CHR ''q'', [CHR 0xC7, CHR 0xAB]),
     (CHR ''r'', [CHR 0xCA, CHR 0x80]),
     (CHR ''s'', ''s''),
     (CHR ''t'', [CHR 0xE1, CHR 0xB4, CHR 0x9B]),
     (CHR ''u'', [CHR 0xE1, CHR 0xB4, CHR 0x9C]),
     (CHR ''v'', [CHR 0xE1, CHR 0xB4, CHR 0xA0]),
     (CHR ''w'', [CHR 0xE1, CHR 0xB4, CHR 0xA1]),
     (CHR ''x'', ''x''),
     (CHR ''y'', [CHR 0xCA, CHR 0x8F]),
     (CHR ''z'', [CHR 0xE1, CHR 0xB4, CHR 0xA2])]"

definition to_small_caps :: "string \<Rightarrow> string" where
  "to_small_caps text =
     concat (map (\<lambda>c. case small_caps_map c of None \<Rightarrow> [c] | Some t \<Rightarrow> t) text)"

text \<open>
  \<^verbatim>\<open>header\<close> and \<^verbatim>\<open>info\<close>. The built-in \<^verbatim>\<open>str.title\<close> is a parameter \<open>title\<close> of the
  model.
\<close>

definition header :: "(string \<Rightarrow> string) \<Rightarrow> CustomLogger \<Rightarrow> string \<Rightarrow> string
    \<Rightarrow> error + string option" where
  "header title lg s lvl =
     print lg (NL # ''==== '' @ to_small_caps (title s) @ '' ===='') lvl 0 None (Some True)"

definition info :: "CustomLogger \<Rightarrow> string \<Rightarrow> string \<Rightarrow> int \<Rightarrow> error + string option" where
  "info lg s lvl indent = print lg (''INFO: '' @ s) lvl indent (Some Cyan) None"

definition check_glyph :: string where
  "check_glyph = [CHR 0xE2, CHR 0x9C, CHR 0x94]"

definition cross_glyph :: string where
  "cross_glyph = [CHR 0xE2, CHR 0x9C, CHR 0x97]"

definition green_red :: "CustomLogger \<Rightarrow> string \<Rightarrow> bool \<Rightarrow> error + string" where
  "green_red lg s st =
     (if \<not> st
      then (if contains (table_indent lg) s
            then (case str_split s (table_indent lg) of
                    Inl e \<Rightarrow> Inl e
                  | Inr subs \<Rightarrow>
                      Inr (join_str (style '' '' (Some Reset) None @ table_indent lg)
                             (map (\<lambda>substring. style substring (Some Red) None) subs)))
            else Inr (style s (Some Red) None))
      else if st \<and> level lg \<le> 5
      then Inr (style s (Some Green) None)
      else Inr s)"

definition checkmark :: "CustomLogger \<Rightarrow> bool \<Rightarrow> error + string" where
  "checkmark lg st =
     (if st then green_red lg check_glyph st else green_red lg cross_glyph st)"

text \<open>
  The element expression of the comprehension in \<^verbatim>\<open>filter_logs\<close>. The library function
  \<^verbatim>\<open>textwrap.wrap\<close> is a parameter \<open>wrap\<close> of the model; called on \<^verbatim>\<open>None\<close> it raises
  \<^verbatim>\<open>AttributeError\<close> (it calls \<^verbatim>\<open>text.expandtabs\<close>) before it wraps anything.
\<close>

definition log_line :: "(string \<Rightarrow> int \<Rightarrow> string list) \<Rightarrow> CustomLogger \<Rightarrow> Log \<Rightarrow> error + string" where
  "log_line wrap lg l =
     (if status l
      then (case green_red lg
                   (case details l of
                      None \<Rightarrow> check_glyph
                    | Some d \<Rightarrow> if d = [] then check_glyph else d)
                   (status l) of
              Inl e \<Rightarrow> Inl e
            | Inr r \<Rightarrow> Inr (name l @ '': '' @ r))
      else (case details l of
              None \<Rightarrow> Inl AttributeError
            | Some d \<Rightarrow>
                (case green_red lg (join_str (table_indent lg) (wrap d (width lg))) (status l) of
                   Inl e \<Rightarrow> Inl e
                 | Inr r \<Rightarrow> Inr (name l @ '': '' @ r))))"

text \<open>
  An instance of the parameter \<open>wrap\<close>: a model of \<^verbatim>\<open>textwrap.wrap(text, width)\<close> with its
  default options, following \<^verbatim>\<open>TextWrapper\<close> method by method. It is exact for ASCII text.
  For other text it is an approximation: it counts the bytes of the encoding where
  \<^verbatim>\<open>textwrap\<close> counts code points, and it knows no letters and no spaces outside ASCII.
  A width below 1 raises \<^verbatim>\<open>ValueError\<close> in \<^verbatim>\<open>textwrap\<close> and gives no line here; the logger's
  width is 88. The variable \<open>wd\<close> stands for \<^verbatim>\<open>width\<close>.
\<close>

text \<open>\<^verbatim>\<open>_whitespace\<close>, \<^verbatim>\<open>str.expandtabs\<close> and \<^verbatim>\<open>_munge_whitespace\<close>.\<close>

definition whitespace :: string where
  "whitespace = [TAB, NL, CHR 0x0B, CHR 0x0C, CHR 0x0D, CHR '' '']"

fun expandtabs :: "nat \<Rightarrow> nat \<Rightarrow> string \<Rightarrow> string" where
  "expandtabs tabsize line_pos [] = []"
| "expandtabs tabsize line_pos (ch # text) =
     (if ch = TAB
      then (if tabsize > 0
            then replicate (tabsize - line_pos mod tabsize) CHR '' ''
                 @ expandtabs tabsize (line_pos + (tabsize - line_pos mod tabsize)) text
            else expandtabs tabsize line_pos text)
      else ch # expandtabs tabsize (if ch = NL \<or> ch = CHR 0x0D then 0 else line_pos + 1) text)"

definition munge_whitespace :: "string \<Rightarrow> string" where
  "munge_whitespace text =
     map (\<lambda>c. if c \<in> set whitespace then CHR '' '' else c) (expandtabs 8 0 text)"

text \<open>
  The character classes of \<^verbatim>\<open>wordsep_re\<close>: \<^verbatim>\<open>\w\<close>, \<^verbatim>\<open>letter\<close> (a word character that is
  no digit), \<^verbatim>\<open>word_punct\<close>, \<^verbatim>\<open>whitespace\<close> and the hyphen.
\<close>

definition is_word :: "char \<Rightarrow> bool" where
  "is_word c = (let n = (of_char c :: nat) in
     (48 \<le> n \<and> n \<le> 57) \<or> (65 \<le> n \<and> n \<le> 90) \<or> (97 \<le> n \<and> n \<le> 122) \<or> n = 95)"

definition is_lt :: "char \<Rightarrow> bool" where
  "is_lt c = (let n = (of_char c :: nat) in
     (65 \<le> n \<and> n \<le> 90) \<or> (97 \<le> n \<and> n \<le> 122) \<or> n = 95)"

definition is_wp :: "char \<Rightarrow> bool" where
  "is_wp c = (is_word c
     \<or> c \<in> set [CHR ''!'', CHR 0x22, CHR 0x27, CHR ''&'', CHR ''.'', CHR '','', CHR ''?''])"

definition is_ws :: "char \<Rightarrow> bool" where
  "is_ws c = (c \<in> set whitespace)"

definition is_hy :: "char \<Rightarrow> bool" where
  "is_hy c = (c = CHR ''-'')"

text \<open>
  The lookarounds of \<^verbatim>\<open>wordsep_re\<close>. \<open>dashes_word\<close> is the lookahead \<^verbatim>\<open>-{2,}\w\<close>;
  \<open>hyphen_behind\<close> is the lookbehind \<^verbatim>\<open>letter letter -\<close> or \<^verbatim>\<open>letter - letter -\<close>, read on
  the reversed text before the hyphen; \<open>hyphen_ahead\<close> is the lookahead
  \<^verbatim>\<open>letter -? letter\<close>.
\<close>

definition dashes_word :: "string \<Rightarrow> bool" where
  "dashes_word rest =
     (2 \<le> length (takeWhile is_hy rest)
      \<and> (case dropWhile is_hy rest of [] \<Rightarrow> False | c # _ \<Rightarrow> is_word c))"

definition hyphen_behind :: "string \<Rightarrow> bool" where
  "hyphen_behind bef =
     (case bef of
        x1 # x2 # zs \<Rightarrow>
          is_lt x1
          \<and> (is_lt x2 \<or> (is_hy x2 \<and> (case zs of [] \<Rightarrow> False | x3 # _ \<Rightarrow> is_lt x3)))
      | _ \<Rightarrow> False)"

definition hyphen_ahead :: "string \<Rightarrow> bool" where
  "hyphen_ahead rest =
     (case rest of
        a # b # zs \<Rightarrow>
          is_lt a
          \<and> ((is_hy b \<and> (case zs of [] \<Rightarrow> False | c # _ \<Rightarrow> is_lt c)) \<or> is_lt b)
      | _ \<Rightarrow> False)"

text \<open>
  The third alternative of \<^verbatim>\<open>wordsep_re\<close>, a word: after the characters matched so far
  (\<open>bef\<close> is the reversed text before the current position) the lazy repetition stops at
  the first position where one of the three endings matches, tried in the order of the
  pattern: a hyphen inside a hyphenated word (which is taken into the match), the end of
  the word, or an em-dash ahead. The result is the number of further characters matched.
\<close>

fun word_tail :: "string \<Rightarrow> string \<Rightarrow> nat" where
  "word_tail bef [] = 0"
| "word_tail bef (c # rest) =
     (if is_hy c \<and> hyphen_behind bef \<and> hyphen_ahead rest then 1
      else if is_ws c then 0
      else if (case bef of [] \<Rightarrow> False | b # _ \<Rightarrow> is_wp b) \<and> dashes_word (c # rest) then 0
      else Suc (word_tail (c # bef) rest))"

text \<open>
  The length of the match of \<^verbatim>\<open>wordsep_re\<close> at the start of \<open>rest\<close>: a run of whitespace,
  an em-dash between words, or a word.
\<close>

definition match_len :: "string \<Rightarrow> string \<Rightarrow> nat" where
  "match_len bef rest =
     (case rest of
        [] \<Rightarrow> 0
      | c # zs \<Rightarrow>
          if is_ws c then length (takeWhile is_ws rest)
          else if (case bef of [] \<Rightarrow> False | b # _ \<Rightarrow> is_wp b) \<and> dashes_word rest
          then length (takeWhile is_hy rest)
          else Suc (word_tail (c # bef) zs))"

text \<open>
  \<^verbatim>\<open>_split\<close>: the chunks \<^verbatim>\<open>wordsep_re.split\<close> returns, without the empty ones. The pattern
  matches at every position, so the chunks are the successive matches.
\<close>

function split_chunks_from :: "string \<Rightarrow> string \<Rightarrow> string list" where
  "split_chunks_from bef rest =
     (if rest = [] then []
      else take (match_len bef rest) rest
           # split_chunks_from (rev (take (match_len bef rest) rest) @ bef)
               (drop (match_len bef rest) rest))"
  by pat_completeness auto

text \<open>\<^verbatim>\<open>chunk.strip() == ''\<close>: every character of the chunk is a space for \<^verbatim>\<open>str.strip\<close>.\<close>

definition is_space :: "char \<Rightarrow> bool" where
  "is_space c = (c \<in> set [TAB, NL, CHR 0x0B, CHR 0x0C, CHR 0x0D,
                              CHR 0x1C, CHR 0x1D, CHR 0x1E, CHR 0x1F, CHR '' ''])"

definition strip_empty :: "string \<Rightarrow> bool" where
  "strip_empty chunk = (\<forall>c \<in> set chunk. is_space c)"

text \<open>
  The inner loop of \<^verbatim>\<open>_wrap_chunks\<close>: chunks go onto the current line while they fit. The
  result is the line, its length and the chunks left.
\<close>

fun fill_line :: "nat \<Rightarrow> nat \<Rightarrow> string list \<Rightarrow> string list
    \<Rightarrow> string list \<times> nat \<times> string list" where
  "fill_line wd cur_len cur_line [] = (cur_line, cur_len, [])"
| "fill_line wd cur_len cur_line (chunk # chunks) =
     (if cur_len + length chunk \<le> wd
      then fill_line wd (cur_len + length chunk) (cur_line @ [chunk]) chunks
      else (cur_line, cur_len, chunk # chunks))"

text \<open>
  \<^verbatim>\<open>_handle_long_word\<close>: \<open>rfind_hyphen\<close> is \<^verbatim>\<open>chunk.rfind('-', 0, space_left)\<close>, and
  \<open>long_word_end\<close> is the index \<^verbatim>\<open>end\<close> at which the chunk is cut.
\<close>

definition rfind_hyphen :: "string \<Rightarrow> nat \<Rightarrow> nat option" where
  "rfind_hyphen chunk space_left =
     (case filter (\<lambda>i. chunk ! i = CHR ''-'') (rev [0 ..< min space_left (length chunk)]) of
        [] \<Rightarrow> None
      | i # _ \<Rightarrow> Some i)"

definition long_word_end :: "string \<Rightarrow> nat \<Rightarrow> nat" where
  "long_word_end chunk space_left =
     (if length chunk > space_left
      then (case rfind_hyphen chunk space_left of
              None \<Rightarrow> space_left
            | Some hyphen \<Rightarrow>
                if hyphen > 0 \<and> (\<exists>c \<in> set (take hyphen chunk). c \<noteq> CHR ''-'')
                then hyphen + 1 else space_left)
      else space_left)"

text \<open>
  One pass of the outer loop of \<^verbatim>\<open>_wrap_chunks\<close>; \<open>started\<close> says that a line has been
  produced already. A whitespace chunk at the start of a line after the first is dropped,
  the line is filled, a chunk longer than the width is cut, and a whitespace chunk at the
  end of the line is dropped. The result is the chunks of the line and the chunks left.
\<close>

definition one_line :: "nat \<Rightarrow> bool \<Rightarrow> string list \<Rightarrow> string list \<times> string list" where
  "one_line wd started chunks =
     (let chunks1 = (if started \<and> chunks \<noteq> [] \<and> strip_empty (hd chunks)
                     then tl chunks else chunks);
          (cur_line, cur_len, chunks2) = fill_line wd 0 [] chunks1;
          (cur_line2, chunks3) =
            (if chunks2 \<noteq> [] \<and> length (hd chunks2) > wd
             then (let e = long_word_end (hd chunks2) (wd - cur_len)
                   in (cur_line @ [take e (hd chunks2)], drop e (hd chunks2) # tl chunks2))
             else (cur_line, chunks2));
          cur_line3 = (if cur_line2 \<noteq> [] \<and> strip_empty (last cur_line2)
                       then butlast cur_line2 else cur_line2)
      in (cur_line3, chunks3))"

text \<open>\<^verbatim>\<open>_wrap_chunks\<close>: a line is kept when it has a chunk.\<close>

function wrap_chunks :: "nat \<Rightarrow> bool \<Rightarrow> string list \<Rightarrow> string list" where
  "wrap_chunks wd started chunks =
     (if chunks = [] \<or> wd = 0 then []
      else (case one_line wd started chunks of
              (cur_line, chunks') \<Rightarrow>
                (if cur_line \<noteq> [] then [concat cur_line] else [])
                @ wrap_chunks wd (started \<or> cur_line \<noteq> []) chunks'))"
  by pat_completeness auto

definition textwrap_wrap :: "string \<Rightarrow> int \<Rightarrow> string list" where
  "textwrap_wrap text wd =
     (if wd \<le> 0 then []
      else wrap_chunks (nat wd) False (split_chunks_from [] (munge_whitespace text)))"


text \<open>
  For the proofs: the size that decreases with every pass of \<^verbatim>\<open>_wrap_chunks\<close>, and chunks
  that are not empty and hold no space.
\<close>

definition chunks_size :: "string list \<Rightarrow> nat" where
  "chunks_size chunks = length (concat chunks) + length chunks"


fun filter_logs :: "(string \<Rightarrow> int \<Rightarrow> string list) \<Rightarrow> CustomLogger \<Rightarrow> Log list
    \<Rightarrow> error + string list" where
  "filter_logs wrap lg [] = Inr []"
| "filter_logs wrap lg (l # ls) =
     (if status l = False \<or> level lg \<le> 0
      then (case log_line wrap lg l of
              Inl e \<Rightarrow> Inl e
            | Inr r \<Rightarrow>
                (case filter_logs wrap lg ls of
                   Inl e \<Rightarrow> Inl e
                 | Inr rs \<Rightarrow> Inr (r # rs)))
      else filter_logs wrap lg ls)"

text \<open>\<^verbatim>\<open>filter_append\<close> mutates the list in place; the model returns the list after the call.\<close>

definition filter_append :: "CustomLogger \<Rightarrow> 'a list \<Rightarrow> 'a \<Rightarrow> string \<Rightarrow> error + 'a list" where
  "filter_append lg haystack hay lvl =
     (case getitem (eq_dict lg) lvl of
        Inl e \<Rightarrow> Inl e
      | Inr n \<Rightarrow> if n \<ge> level lg then Inr (haystack @ [hay]) else Inr haystack)"

section \<open>Basic facts\<close>

lemma eq_levels_Some:
  "eq_levels k = Some n \<longleftrightarrow>
     k = ''minimal'' \<and> n = 10 \<or> k = ''details'' \<and> n = 5 \<or> k = ''verbose'' \<and> n = 0"
  by (auto simp: eq_levels_def)

lemma eq_levels_None:
  "eq_levels k = None \<longleftrightarrow> k \<noteq> ''minimal'' \<and> k \<noteq> ''details'' \<and> k \<noteq> ''verbose''"
  by (auto simp: eq_levels_def)

lemma init_Inr:
  "CustomLogger_init lvl = Inr lg \<longleftrightarrow> (\<exists>n. eq_levels lvl = Some n \<and> lg = new_logger n)"
  by (auto simp: CustomLogger_init_def getitem_def split: option.splits)

lemma init_fields:
  assumes "CustomLogger_init lvl = Inr lg"
  shows "eq_dict lg = eq_levels" and "width lg = 88" and "table_indent lg = NL # ''    ''"
    and "eq_levels lvl = Some (level lg)"
    and "lvl = ''minimal'' \<and> level lg = 10 \<or> lvl = ''details'' \<and> level lg = 5
         \<or> lvl = ''verbose'' \<and> level lg = 0"
proof -
  from assms obtain n where n: "eq_levels lvl = Some n" and lg: "lg = new_logger n"
    unfolding init_Inr by blast
  show "eq_dict lg = eq_levels" unfolding lg by (simp add: new_logger_def)
  show "width lg = 88" unfolding lg by (simp add: new_logger_def)
  show "table_indent lg = NL # ''    ''" unfolding lg by (simp add: new_logger_def)
  show l: "eq_levels lvl = Some (level lg)" unfolding lg using n by (simp add: new_logger_def)
  show "lvl = ''minimal'' \<and> level lg = 10 \<or> lvl = ''details'' \<and> level lg = 5
         \<or> lvl = ''verbose'' \<and> level lg = 0"
    using l unfolding eq_levels_Some .
qed

lemma init_known:
  "CustomLogger_init ''minimal'' = Inr (new_logger 10)"
  "CustomLogger_init ''details'' = Inr (new_logger 5)"
  "CustomLogger_init ''verbose'' = Inr (new_logger 0)"
  by (simp_all add: CustomLogger_init_def getitem_def eq_levels_def)

lemma length_style:
  "length (style s (Some c) None) = length s + 9"
  by (cases c) (simp_all add: style_def ansi_reset_all_def)

lemma style_neq: "style s (Some c) None \<noteq> s"
proof
  assume "style s (Some c) None = s"
  then have "length (style s (Some c) None) = length s" by simp
  then show False by (simp add: length_style)
qed

section \<open>Splitting, joining and stripping\<close>

lemma split_str_nonempty: "split_str sep s \<noteq> []"
  by (induction sep s rule: split_str.induct) (auto split: list.splits)

lemma join_str_Cons: "ps \<noteq> [] \<Longrightarrow> join_str sep (p # ps) = p @ sep @ join_str sep ps"
  by (cases ps) simp_all

lemma join_str_cons_char: "join_str sep ((c # p) # ps) = c # join_str sep (p # ps)"
  by (cases ps) simp_all

lemma join_split: "sep \<noteq> [] \<Longrightarrow> join_str sep (split_str sep s) = s"
proof (induction sep s rule: split_str.induct)
  case (1 sep)
  then show ?case by simp
next
  case (2 sep c cs)
  show ?case
  proof (cases "prefix sep (c # cs)")
    case True
    then have "sep @ drop (length sep) (c # cs) = c # cs"
      by (metis append_eq_conv_conj prefixE)
    with True 2 show ?thesis
      by (simp add: join_str_Cons split_str_nonempty)
  next
    case False
    with 2 show ?thesis
      by (auto split: list.splits simp: join_str_cons_char split_str_nonempty)
  qed
qed

lemma length_split_contains:
  "sep \<noteq> [] \<Longrightarrow> contains sep s \<longleftrightarrow> 2 \<le> length (split_str sep s)"
proof (induction sep s rule: split_str.induct)
  case (1 sep)
  then show ?case by simp
next
  case (2 sep c cs)
  then show ?case
    using split_str_nonempty[of sep "drop (length sep) (c # cs)"]
    by (cases "split_str sep (drop (length sep) (c # cs))") (auto split: list.splits)
qed

lemma match_csi_append:
  assumes "\<not> is_param c" "\<not> is_letter c" "c \<noteq> CHR ''[''"
  shows "match_csi (x @ c # y) = map_option (\<lambda>r. r @ c # y) (match_csi x)"
proof (cases x)
  case Nil
  with assms show ?thesis by (simp add: match_csi_def)
next
  case (Cons b t)
  show ?thesis
  proof (cases "\<forall>a\<in>set t. is_param a")
    case True
    then have d0: "dropWhile is_param t = []" by simp
    from True assms have d1: "dropWhile is_param (t @ c # y) = c # y" by simp
    show ?thesis
      unfolding Cons match_csi_def using assms by (simp only: d0 d1 append_Cons list.case option.map if_False split: if_splits) simp
  next
    case False
    then obtain a where "a \<in> set t" "\<not> is_param a" by blast
    then have d: "dropWhile is_param (t @ c # y) = dropWhile is_param t @ c # y"
      by (rule dropWhile_append1)
    from False have "dropWhile is_param t \<noteq> []" by simp
    then obtain l r where "dropWhile is_param t = l # r" by (cases "dropWhile is_param t") auto
    with d Cons show ?thesis by (simp add: match_csi_def)
  qed
qed

lemma strip_ansi_append:
  assumes "\<not> is_param c" "\<not> is_letter c" "c \<noteq> CHR ''[''"
  shows "strip_ansi (x @ c # y) = strip_ansi x @ strip_ansi (c # y)"
proof (induction x rule: strip_ansi.induct)
  case 1
  show ?case by simp
next
  case (2 a as)
  show ?case
  proof (cases "a = ESC")
    case True
    show ?thesis
    proof (cases "match_csi as")
      case None
      with True 2 assms show ?thesis by (simp add: match_csi_append)
    next
      case (Some r)
      with True 2 assms show ?thesis by (simp add: match_csi_append)
    qed
  next
    case False
    with 2 show ?thesis by simp
  qed
qed

lemma strip_ansi_style: "strip_ansi (style s (Some c) None) = strip_ansi s"
proof -
  have a: "strip_ansi (s @ ansi_reset_all) = strip_ansi s @ strip_ansi ansi_reset_all"
    unfolding ansi_reset_all_def
    by (rule strip_ansi_append) (simp_all add: is_param_def is_letter_def)
  have b: "strip_ansi ansi_reset_all = []"
    by (simp add: ansi_reset_all_def match_csi_def is_param_def is_letter_def)
  show ?thesis
    by (cases c) (simp_all add: style_def match_csi_def is_param_def is_letter_def a b)
qed

lemma strip_ansi_plain: "ESC \<notin> set s \<Longrightarrow> strip_ansi s = s"
  by (induction s) auto


lemma strip_red_sep:
  "strip_ansi (style x (Some Red) None @ (style '' '' (Some Reset) None @ NL # ''    '') @ rest)
   = strip_ansi x @ CHR '' '' # NL # ''    '' @ strip_ansi rest"
proof -
  have "strip_ansi (x @ ESC # ''[0m'' @ ESC # ''[39m '' @ ESC # ''[0m'' @ NL # ''    '' @ rest)
        = strip_ansi x @ strip_ansi (ESC # ''[0m'' @ ESC # ''[39m '' @ ESC # ''[0m'' @ NL # ''    '' @ rest)"
    by (rule strip_ansi_append) (simp_all add: is_param_def is_letter_def)
  then show ?thesis
    by (simp add: style_def ansi_reset_all_def match_csi_def is_param_def is_letter_def)
qed

lemma strip_join_red:
  "strip_ansi (join_str (style '' '' (Some Reset) None @ NL # ''    '')
                 (map (\<lambda>substring. style substring (Some Red) None) ps))
   = join_str (CHR '' '' # NL # ''    '') (map strip_ansi ps)"
proof (induction ps rule: induct_list012)
  case 1
  show ?case by simp
next
  case (2 x)
  show ?case by (simp add: strip_ansi_style)
next
  case (3 x y zs)
  then show ?case
    by (simp only: list.map join_str.simps strip_red_sep) simp
qed

lemma strip_plain_sep:
  "strip_ansi (x @ (NL # ''    '') @ rest) = strip_ansi x @ (NL # ''    '') @ strip_ansi rest"
proof -
  have "strip_ansi (x @ NL # ''    '' @ rest) = strip_ansi x @ strip_ansi (NL # ''    '' @ rest)"
    by (rule strip_ansi_append) (simp_all add: is_param_def is_letter_def)
  then show ?thesis by simp
qed

lemma strip_join_plain:
  "strip_ansi (join_str (NL # ''    '') ps) = join_str (NL # ''    '') (map strip_ansi ps)"
proof (induction ps rule: induct_list012)
  case 1
  show ?case by simp
next
  case (2 x)
  show ?case by simp
next
  case (3 x y zs)
  then show ?case
    by (simp only: list.map join_str.simps strip_plain_sep)
qed

lemma length_join_cons:
  "length (join_str (c # sep) ps) = length (join_str sep ps) + (length ps - 1)"
  by (induction ps rule: induct_list012) simp_all

lemma set_split_subset: "p \<in> set (split_str sep s) \<Longrightarrow> set p \<subseteq> set s"
proof (induction sep s arbitrary: p rule: split_str.induct)
  case (1 sep)
  then show ?case by simp
next
  case (2 sep c cs)
  show ?case
  proof (cases "sep \<noteq> [] \<and> prefix sep (c # cs)")
    case True
    with 2 have "p = [] \<or> p \<in> set (split_str sep (drop (length sep) (c # cs)))" by simp
    with 2(1)[OF True] True show ?thesis
      using set_drop_subset[of "length sep" "c # cs"] by (auto simp del: drop_Suc_Cons)
  next
    case False
    obtain q qs where q: "split_str sep cs = q # qs"
      using split_str_nonempty[of sep cs] by (cases "split_str sep cs") auto
    with False 2(3) have "p = c # q \<or> p \<in> set qs" by (auto split: if_splits)
    moreover have "set q \<subseteq> set cs" and "\<And>r. r \<in> set qs \<Longrightarrow> set r \<subseteq> set cs"
      using 2(2)[OF False] q by simp_all
    ultimately show ?thesis by fastforce
  qed
qed


lemma map_strip_plain:
  assumes "ESC \<notin> set s"
  shows "map strip_ansi (split_str sep s) = split_str sep s"
proof -
  have "\<And>p. p \<in> set (split_str sep s) \<Longrightarrow> strip_ansi p = p"
    using assms set_split_subset[of _ sep s] by (intro strip_ansi_plain) blast
  then show ?thesis by (simp add: map_idI)
qed

lemma contains_subset: "contains sub t \<Longrightarrow> set sub \<subseteq> set t"
proof (induction t)
  case Nil
  then show ?case by simp
next
  case (Cons a t)
  from Cons.prems have "prefix sub (a # t) \<or> contains sub t" by simp
  then show ?case
  proof
    assume "prefix sub (a # t)"
    then show ?thesis by (rule set_mono_prefix)
  next
    assume "contains sub t"
    then have "set sub \<subseteq> set t" by (rule Cons.IH)
    then show ?thesis by auto
  qed
qed

lemma prefix_append_disjoint:
  assumes "set sub \<inter> set t = {}"
  shows "prefix sub (s @ t) \<longleftrightarrow> prefix sub s"
proof
  assume "prefix sub (s @ t)"
  then consider "prefix sub s" | us where "sub = s @ us" "prefix us t"
    unfolding prefix_append by blast
  then show "prefix sub s"
  proof cases
    case 1
    then show ?thesis .
  next
    case 2
    then have "set us \<subseteq> set sub \<inter> set t"
      by (auto dest: set_mono_prefix)
    with assms have "us = []" by auto
    with 2 show ?thesis by simp
  qed
next
  assume "prefix sub s"
  then show "prefix sub (s @ t)" by (rule prefix_prefix)
qed

lemma contains_append_disjoint:
  assumes "set sub \<inter> set t = {}" "sub \<noteq> []"
  shows "contains sub (s @ t) \<longleftrightarrow> contains sub s"
proof (induction s)
  case Nil
  from assms have "\<not> contains sub t"
    using contains_subset[of sub t] by (cases sub) auto
  with assms show ?case by simp
next
  case (Cons c cs)
  have "prefix sub ((c # cs) @ t) \<longleftrightarrow> prefix sub (c # cs)"
    using assms(1) by (rule prefix_append_disjoint)
  with Cons show ?case by simp
qed

lemma contains_style:
  "contains (NL # ''    '') (style s (Some c) None) \<longleftrightarrow> contains (NL # ''    '') s"
proof -
  have "contains (NL # ''    '') (s @ ansi_reset_all) \<longleftrightarrow> contains (NL # ''    '') s"
    by (rule contains_append_disjoint) (simp_all add: ansi_reset_all_def)
  then show ?thesis
    by (cases c) (simp_all add: style_def)
qed

lemma green_red_failure:
  assumes "table_indent lg = NL # ''    ''"
  shows "green_red lg s False =
     Inr (if contains (NL # ''    '') s
          then join_str (style '' '' (Some Reset) None @ NL # ''    '')
                 (map (\<lambda>substring. style substring (Some Red) None) (split_str (NL # ''    '') s))
          else style s (Some Red) None)"
  using assms by (simp add: green_red_def str_split_def)

section \<open>The colorizer\<close>

text \<open>
  C6. With status true, \<^verbatim>\<open>green_red\<close> applies the success colour exactly when the
  threshold of the configured level is at most 5, that is for \<^verbatim>\<open>details\<close> and
  \<^verbatim>\<open>verbose\<close>; at \<^verbatim>\<open>minimal\<close> (threshold 10) the string comes back unchanged.
\<close>

theorem green_red_success_colour:
  assumes "CustomLogger_init lvl = Inr lg"
  shows "(green_red lg s True = Inr (style s (Some Green) None)) = (level lg \<le> 5)
       \<and> (level lg \<le> 5) = (lvl = ''details'' \<or> lvl = ''verbose'')
       \<and> (lvl = ''minimal'' \<longrightarrow> level lg = 10 \<and> green_red lg s True = Inr s)"
  using init_fields(5)[OF assms] style_neq[of s Green]
  by (auto simp: green_red_def)

theorem green_red_success_colour_witness:
  "CustomLogger_init ''minimal'' = Inr (new_logger 10)
   \<and> green_red (new_logger 10) ''passed'' True = Inr ''passed''
   \<and> green_red (new_logger 10) ''passed'' True \<noteq> Inr (style ''passed'' (Some Green) None)"
proof -
  have i: "CustomLogger_init ''minimal'' = Inr (new_logger 10)"
    by (rule init_known)
  from green_red_success_colour[OF i, of "''passed''"]
  have "green_red (new_logger 10) ''passed'' True = Inr ''passed''"
    by simp
  with i show ?thesis
    using style_neq[of "''passed''" Green] by auto
qed

text \<open>
  C10, as the claim states it, fails on a string that carries a colour code of its own:
  the code is stripped too, so the stripped result is not the input with a space added
  before the marker.
\<close>

theorem green_red_failure_coloured_input_counterexample:
  "CustomLogger_init ''minimal'' = Inr (new_logger 10)
   \<and> contains (table_indent (new_logger 10)) (ESC # ''[31ma'' @ NL # ''    b'')
   \<and> green_red (new_logger 10) (ESC # ''[31ma'' @ NL # ''    b'') False
       = Inr (ESC # ''[31m'' @ ESC # ''[31ma'' @ ESC # ''[0m'' @ ESC # ''[39m '' @ ESC # ''[0m''
              @ NL # ''    '' @ ESC # ''[31mb'' @ ESC # ''[0m'')
   \<and> strip_ansi (ESC # ''[31m'' @ ESC # ''[31ma'' @ ESC # ''[0m'' @ ESC # ''[39m '' @ ESC # ''[0m''
              @ NL # ''    '' @ ESC # ''[31mb'' @ ESC # ''[0m'')
       = ''a '' @ NL # ''    b''
   \<and> join_str (CHR '' '' # table_indent (new_logger 10))
        (split_str (table_indent (new_logger 10)) (ESC # ''[31ma'' @ NL # ''    b''))
       = ESC # ''[31ma '' @ NL # ''    b''
   \<and> ''a '' @ NL # ''    b'' \<noteq> ESC # ''[31ma '' @ NL # ''    b''"
proof -
  have ti: "table_indent (new_logger 10) = NL # ''    ''"
    by (simp add: new_logger_def)
  show ?thesis
    by (simp add: init_known green_red_failure[OF ti] ti style_def ansi_reset_all_def
        match_csi_def is_param_def is_letter_def)
qed

text \<open>
  C10, amended. When the string contains the indent marker, colorizing it as a failure
  puts one uncoloured space before every marker: with the colour codes stripped, the
  result is the segments of the input (each stripped) joined by a space followed by the
  marker, whereas the stripped input is the same segments joined by the marker alone, so
  the two differ. For an input without escape characters this reads: the stripped result
  is the input with one space added before every marker, and it is not the input.
\<close>

theorem green_red_failure_adds_space:
  assumes "CustomLogger_init lvl = Inr lg" and "contains (table_indent lg) s"
  shows "\<exists>r. green_red lg s False = Inr r
     \<and> strip_ansi r
         = join_str (CHR '' '' # table_indent lg) (map strip_ansi (split_str (table_indent lg) s))
     \<and> strip_ansi s
         = join_str (table_indent lg) (map strip_ansi (split_str (table_indent lg) s))
     \<and> strip_ansi r \<noteq> strip_ansi s
     \<and> (ESC \<notin> set s \<longrightarrow>
          strip_ansi r = join_str (CHR '' '' # table_indent lg) (split_str (table_indent lg) s)
          \<and> s = join_str (table_indent lg) (split_str (table_indent lg) s)
          \<and> strip_ansi r \<noteq> s)"
proof -
  let ?I = "NL # ''    ''"
  let ?ps = "split_str ?I s"
  have ti: "table_indent lg = ?I"
    using assms(1) by (rule init_fields(3))
  have c: "contains ?I s"
    using assms(2) unfolding ti .
  define r where "r = join_str (style '' '' (Some Reset) None @ ?I)
                 (map (\<lambda>substring. style substring (Some Red) None) ?ps)"
  have g: "green_red lg s False = Inr r"
    using c by (simp add: green_red_failure[OF ti] r_def)
  have sr: "strip_ansi r = join_str (CHR '' '' # ?I) (map strip_ansi ?ps)"
    unfolding r_def by (rule strip_join_red)
  have js: "join_str ?I ?ps = s"
    by (rule join_split) simp
  have ss: "strip_ansi s = join_str ?I (map strip_ansi ?ps)"
    using strip_join_plain[of ?ps] by (simp only: js)
  have len: "2 \<le> length ?ps"
    using c length_split_contains[of ?I s] by simp
  have "length (strip_ansi r) = length (strip_ansi s) + (length ?ps - 1)"
    unfolding sr ss using length_join_cons[of "CHR '' ''" ?I "map strip_ansi ?ps"] by simp
  with len have ne: "strip_ansi r \<noteq> strip_ansi s" by auto
  have plain: "strip_ansi r = join_str (CHR '' '' # ?I) ?ps \<and> s = join_str ?I ?ps \<and> strip_ansi r \<noteq> s"
    if "ESC \<notin> set s"
    using that sr js ne by (simp add: map_strip_plain strip_ansi_plain)
  from g sr ss ne plain show ?thesis
    unfolding ti by blast
qed

text \<open>The two-line string \<^verbatim>\<open>a\<close>, marker, \<^verbatim>\<open>b\<close> at level \<^verbatim>\<open>minimal\<close>.\<close>

theorem green_red_failure_adds_space_witness:
  "CustomLogger_init ''minimal'' = Inr (new_logger 10)
   \<and> contains (table_indent (new_logger 10)) (''a'' @ NL # ''    b'')
   \<and> (\<exists>r. green_red (new_logger 10) (''a'' @ NL # ''    b'') False = Inr r
          \<and> strip_ansi r = ''a '' @ NL # ''    b'')"
proof -
  have i: "CustomLogger_init ''minimal'' = Inr (new_logger 10)"
    by (rule init_known)
  have c: "contains (table_indent (new_logger 10)) (''a'' @ NL # ''    b'')"
    by (simp add: new_logger_def)
  from green_red_failure_adds_space[OF i c]
  obtain r where "green_red (new_logger 10) (''a'' @ NL # ''    b'') False = Inr r"
    and "strip_ansi r = join_str (CHR '' '' # table_indent (new_logger 10))
           (map strip_ansi (split_str (table_indent (new_logger 10)) (''a'' @ NL # ''    b'')))"
    by blast
  moreover have "join_str (CHR '' '' # table_indent (new_logger 10))
           (map strip_ansi (split_str (table_indent (new_logger 10)) (''a'' @ NL # ''    b'')))
         = ''a '' @ NL # ''    b''"
    by (simp add: new_logger_def)
  ultimately show ?thesis using i c by auto
qed

text \<open>
  C8, as the spec states it, fails on a string with the marker: a second colorization adds
  a second space before the marker.
\<close>

theorem green_red_failure_twice_counterexample:
  "CustomLogger_init ''minimal'' = Inr (new_logger 10)
   \<and> green_red (new_logger 10) (''a'' @ NL # ''    b'') False
       = Inr (ESC # ''[31ma'' @ ESC # ''[0m'' @ ESC # ''[39m '' @ ESC # ''[0m'' @ NL # ''    ''
              @ ESC # ''[31mb'' @ ESC # ''[0m'')
   \<and> green_red (new_logger 10)
         (ESC # ''[31ma'' @ ESC # ''[0m'' @ ESC # ''[39m '' @ ESC # ''[0m'' @ NL # ''    ''
              @ ESC # ''[31mb'' @ ESC # ''[0m'') False
       = Inr (ESC # ''[31m'' @ ESC # ''[31ma'' @ ESC # ''[0m'' @ ESC # ''[39m '' @ ESC # ''[0m''
              @ ESC # ''[0m'' @ ESC # ''[39m '' @ ESC # ''[0m'' @ NL # ''    ''
              @ ESC # ''[31m'' @ ESC # ''[31mb'' @ ESC # ''[0m'' @ ESC # ''[0m'')
   \<and> strip_ansi (ESC # ''[31ma'' @ ESC # ''[0m'' @ ESC # ''[39m '' @ ESC # ''[0m'' @ NL # ''    ''
              @ ESC # ''[31mb'' @ ESC # ''[0m'')
       = ''a '' @ NL # ''    b''
   \<and> strip_ansi (ESC # ''[31m'' @ ESC # ''[31ma'' @ ESC # ''[0m'' @ ESC # ''[39m '' @ ESC # ''[0m''
              @ ESC # ''[0m'' @ ESC # ''[39m '' @ ESC # ''[0m'' @ NL # ''    ''
              @ ESC # ''[31m'' @ ESC # ''[31mb'' @ ESC # ''[0m'' @ ESC # ''[0m'')
       = ''a  '' @ NL # ''    b''
   \<and> ''a  '' @ NL # ''    b'' \<noteq> ''a '' @ NL # ''    b''"
proof -
  have ti: "table_indent (new_logger 10) = NL # ''    ''"
    by (simp add: new_logger_def)
  show ?thesis
    by (simp add: init_known green_red_failure[OF ti] style_def ansi_reset_all_def
        match_csi_def is_param_def is_letter_def)
qed

text \<open>
  C8, amended. For every string that does not contain the indent marker, colorizing it as
  a failure twice and stripping the colour codes gives the same string as colorizing it
  once and stripping.
\<close>

theorem green_red_failure_idempotent_one_line:
  assumes "CustomLogger_init lvl = Inr lg" and "\<not> contains (table_indent lg) s"
  shows "\<exists>r1 r2. green_red lg s False = Inr r1 \<and> green_red lg r1 False = Inr r2
           \<and> strip_ansi r2 = strip_ansi r1"
proof -
  have ti: "table_indent lg = NL # ''    ''"
    using assms(1) by (rule init_fields(3))
  have c: "\<not> contains (NL # ''    '') s"
    using assms(2) unfolding ti .
  have 1: "green_red lg s False = Inr (style s (Some Red) None)"
    using c by (simp add: green_red_failure[OF ti])
  have 2: "green_red lg (style s (Some Red) None) False
           = Inr (style (style s (Some Red) None) (Some Red) None)"
    using c by (simp add: green_red_failure[OF ti] contains_style)
  have "strip_ansi (style (style s (Some Red) None) (Some Red) None)
        = strip_ansi (style s (Some Red) None)"
    by (rule strip_ansi_style)
  with 1 2 show ?thesis by blast
qed

theorem green_red_failure_idempotent_one_line_witness:
  "CustomLogger_init ''details'' = Inr (new_logger 5)
   \<and> \<not> contains (table_indent (new_logger 5)) ''missing element X''
   \<and> (\<exists>r1 r2. green_red (new_logger 5) ''missing element X'' False = Inr r1
          \<and> green_red (new_logger 5) r1 False = Inr r2
          \<and> strip_ansi r2 = strip_ansi r1)"
proof -
  have i: "CustomLogger_init ''details'' = Inr (new_logger 5)"
    by (rule init_known)
  have c: "\<not> contains (table_indent (new_logger 5)) ''missing element X''"
    by (simp add: new_logger_def)
  from green_red_failure_idempotent_one_line[OF i c] i c show ?thesis
    by blast
qed

lemma glyphs_no_marker:
  "\<not> contains (NL # ''    '') check_glyph" "\<not> contains (NL # ''    '') cross_glyph"
  by (simp_all add: check_glyph_def cross_glyph_def)

text \<open>
  C5, as the spec states it, fails at level \<^verbatim>\<open>minimal\<close>: the success glyph comes back
  bare, without any colour code.
\<close>

theorem checkmark_minimal_counterexample:
  "CustomLogger_init ''minimal'' = Inr (new_logger 10)
   \<and> checkmark (new_logger 10) True = Inr check_glyph
   \<and> ESC \<notin> set check_glyph
   \<and> checkmark (new_logger 10) True \<noteq> Inr (style check_glyph (Some Green) None)"
  using style_neq[of check_glyph Green]
  by (auto simp: init_known checkmark_def green_red_def new_logger_def check_glyph_def)

text \<open>
  C5, amended. \<^verbatim>\<open>checkmark(False)\<close> is the failure glyph in the failure colour at every
  level; \<^verbatim>\<open>checkmark(True)\<close> is the success glyph in the success colour at
  \<^verbatim>\<open>details\<close> and \<^verbatim>\<open>verbose\<close>, and the bare glyph at \<^verbatim>\<open>minimal\<close>.
\<close>

theorem checkmark_colour:
  assumes "CustomLogger_init lvl = Inr lg"
  shows "checkmark lg False = Inr (style cross_glyph (Some Red) None)
       \<and> checkmark lg True
           = Inr (if lvl = ''minimal'' then check_glyph else style check_glyph (Some Green) None)"
proof -
  have ti: "table_indent lg = NL # ''    ''"
    using assms by (rule init_fields(3))
  have f: "checkmark lg False = Inr (style cross_glyph (Some Red) None)"
    by (simp add: checkmark_def green_red_failure[OF ti] glyphs_no_marker)
  have t: "checkmark lg True = Inr (if level lg \<le> 5 then style check_glyph (Some Green) None else check_glyph)"
    by (simp add: checkmark_def green_red_def)
  from init_fields(5)[OF assms] have "(level lg \<le> 5) = (lvl \<noteq> ''minimal'')"
    by auto
  with f t show ?thesis by simp
qed

theorem checkmark_colour_witness:
  "CustomLogger_init ''verbose'' = Inr (new_logger 0)
   \<and> checkmark (new_logger 0) False = Inr (style cross_glyph (Some Red) None)
   \<and> checkmark (new_logger 0) True = Inr (style check_glyph (Some Green) None)"
proof -
  have i: "CustomLogger_init ''verbose'' = Inr (new_logger 0)"
    by (rule init_known)
  from checkmark_colour[OF i] i show ?thesis by simp
qed

section \<open>Conditional append\<close>

text \<open>
  C7, as the spec states it, fails: with \<^verbatim>\<open>minimal\<close> configured (threshold 10) and
  \<^verbatim>\<open>details\<close> required (threshold 5), the configured threshold is at least the required
  one, and nothing is appended.
\<close>

theorem filter_append_reversed_counterexample:
  "CustomLogger_init ''minimal'' = Inr (new_logger 10)
   \<and> eq_dict (new_logger 10) ''details'' = Some 5
   \<and> level (new_logger 10) \<ge> 5
   \<and> filter_append (new_logger 10) [''File''] ''catalog.xml'' ''details'' = Inr [''File'']"
  by (simp add: init_known filter_append_def getitem_def new_logger_def eq_levels_def)

text \<open>
  C7, amended. For a recognised required level, \<^verbatim>\<open>filter_append\<close> appends the item exactly
  when the threshold of the required level is at least the threshold of the configured
  level, and otherwise leaves the list as it is; the length grows by 0 or 1 and the items
  already there stay in place.
\<close>

theorem filter_append_gate:
  assumes "CustomLogger_init lvl = Inr lg" and "eq_levels req = Some n"
  shows "\<exists>h'. filter_append lg haystack hay req = Inr h'
           \<and> (h' = haystack @ [hay]) = (n \<ge> level lg)
           \<and> (\<not> n \<ge> level lg \<longrightarrow> h' = haystack)
           \<and> (length h' = length haystack \<or> length h' = length haystack + 1)
           \<and> take (length haystack) h' = haystack"
proof -
  have "eq_dict lg req = Some n"
    using assms by (simp add: init_fields(1))
  then have "filter_append lg haystack hay req
             = Inr (if n \<ge> level lg then haystack @ [hay] else haystack)"
    by (simp add: filter_append_def getitem_def)
  then show ?thesis by auto
qed

theorem filter_append_gate_witness:
  "CustomLogger_init ''details'' = Inr (new_logger 5)
   \<and> eq_levels ''minimal'' = Some 10
   \<and> filter_append (new_logger 5) [''File''] ''catalog.xml'' ''minimal'' = Inr [''File'', ''catalog.xml'']"
proof -
  have i: "CustomLogger_init ''details'' = Inr (new_logger 5)"
    by (rule init_known)
  have e: "eq_levels ''minimal'' = Some 10"
    by (simp add: eq_levels_def)
  have l: "level (new_logger 5) = 5"
    by (simp add: new_logger_def)
  from filter_append_gate[OF i e, of "[''File'']" "''catalog.xml''"] i e l show ?thesis
    by auto
qed

section \<open>Errors\<close>

lemma green_red_Inr:
  assumes "table_indent lg = NL # ''    ''"
  shows "\<exists>r. green_red lg s st = Inr r"
  using green_red_failure[OF assms, of s] by (cases st) (auto simp: green_red_def)

lemma log_line_error:
  assumes "table_indent lg = NL # ''    ''"
  shows "log_line wrap lg l = Inl e \<longleftrightarrow> e = AttributeError \<and> \<not> status l \<and> details l = None"
proof (cases "status l")
  case True
  obtain r where "green_red lg (case details l of None \<Rightarrow> check_glyph
      | Some d \<Rightarrow> if d = [] then check_glyph else d) True = Inr r"
    using green_red_Inr[OF assms] by blast
  with True show ?thesis by (simp add: log_line_def)
next
  case False
  show ?thesis
  proof (cases "details l")
    case None
    with False show ?thesis by (auto simp: log_line_def)
  next
    case (Some d)
    obtain r where "green_red lg (join_str (table_indent lg) (wrap d (width lg))) False = Inr r"
      using green_red_Inr[OF assms] by blast
    with False Some show ?thesis by (simp add: log_line_def)
  qed
qed

lemma filter_logs_error:
  assumes "table_indent lg = NL # ''    ''"
  shows "filter_logs wrap lg content = Inl e \<Longrightarrow> e = AttributeError"
proof (induction content)
  case Nil
  then show ?case by simp
next
  case (Cons l ls)
  then show ?case
    using log_line_error[OF assms, of wrap l]
    by (auto split: if_splits sum.splits)
qed

lemma filter_logs_append:
  "filter_logs wrap lg (xs @ ys) =
     (case filter_logs wrap lg xs of
        Inl e \<Rightarrow> Inl e
      | Inr a \<Rightarrow> (case filter_logs wrap lg ys of Inl e \<Rightarrow> Inl e | Inr b \<Rightarrow> Inr (a @ b)))"
  by (induction xs) (auto split: sum.splits)

lemma print_result:
  assumes "eq_dict lg = eq_levels"
  shows "(eq_levels req = None \<longrightarrow> print lg s req ind col bold = Inl (KeyError req))
       \<and> (eq_levels req \<noteq> None \<longrightarrow> (\<exists>out. print lg s req ind col bold = Inr out))"
  using assms by (auto simp: print_def getitem_def)

text \<open>
  C9, as the spec states it, fails: \<^verbatim>\<open>header\<close>, \<^verbatim>\<open>info\<close> and \<^verbatim>\<open>filter_append\<close> take a
  level name with every call and look it up in the same dictionary, so an unrecognised
  name raises \<^verbatim>\<open>KeyError\<close> while rendering.
\<close>

theorem render_unknown_level_counterexample:
  "CustomLogger_init ''minimal'' = Inr (new_logger 10)
   \<and> info (new_logger 10) ''Found 3 resource(s)'' ''debug'' 0 = Inl (KeyError ''debug'')
   \<and> header (\<lambda>s. s) (new_logger 10) ''Report'' ''debug'' = Inl (KeyError ''debug'')
   \<and> filter_append (new_logger 10) [''File''] ''catalog.xml'' ''debug'' = Inl (KeyError ''debug'')"
  by (simp add: init_known info_def header_def print_def filter_append_def getitem_def
      new_logger_def eq_levels_def)

text \<open>
  C9, amended. An unrecognised verbosity value given to the constructor is rejected there
  with \<^verbatim>\<open>KeyError\<close>, and a recognised one is accepted. On a constructed logger
  \<^verbatim>\<open>filter_logs\<close> never raises \<^verbatim>\<open>KeyError\<close>, and \<^verbatim>\<open>green_red\<close> and \<^verbatim>\<open>checkmark\<close> never
  raise; \<^verbatim>\<open>header\<close>, \<^verbatim>\<open>info\<close> and \<^verbatim>\<open>filter_append\<close> raise \<^verbatim>\<open>KeyError\<close> exactly when the
  level name of the call is unrecognised.
\<close>

theorem unknown_level_rejected:
  "(eq_levels lvl = None \<longrightarrow> CustomLogger_init lvl = Inl (KeyError lvl))
   \<and> (eq_levels lvl \<noteq> None \<longrightarrow> (\<exists>lg. CustomLogger_init lvl = Inr lg))
   \<and> (CustomLogger_init lvl = Inr lg \<longrightarrow>
        filter_logs wrap lg content \<noteq> Inl (KeyError k)
        \<and> (\<exists>r. green_red lg s st = Inr r)
        \<and> (\<exists>r. checkmark lg st = Inr r)
        \<and> (eq_levels req = None \<longrightarrow>
              header title lg s req = Inl (KeyError req)
              \<and> info lg s req ind = Inl (KeyError req)
              \<and> filter_append lg haystack hay req = Inl (KeyError req))
        \<and> (eq_levels req \<noteq> None \<longrightarrow>
              (\<exists>out. header title lg s req = Inr out)
              \<and> (\<exists>out. info lg s req ind = Inr out)
              \<and> (\<exists>h'. filter_append lg haystack hay req = Inr h')))"
proof -
  have a: "eq_levels lvl = None \<longrightarrow> CustomLogger_init lvl = Inl (KeyError lvl)"
    by (simp add: CustomLogger_init_def getitem_def)
  have b: "eq_levels lvl \<noteq> None \<longrightarrow> (\<exists>lg. CustomLogger_init lvl = Inr lg)"
    by (auto simp: CustomLogger_init_def getitem_def)
  have c: "filter_logs wrap lg content \<noteq> Inl (KeyError k)
        \<and> (\<exists>r. green_red lg s st = Inr r)
        \<and> (\<exists>r. checkmark lg st = Inr r)
        \<and> (eq_levels req = None \<longrightarrow>
              header title lg s req = Inl (KeyError req)
              \<and> info lg s req ind = Inl (KeyError req)
              \<and> filter_append lg haystack hay req = Inl (KeyError req))
        \<and> (eq_levels req \<noteq> None \<longrightarrow>
              (\<exists>out. header title lg s req = Inr out)
              \<and> (\<exists>out. info lg s req ind = Inr out)
              \<and> (\<exists>h'. filter_append lg haystack hay req = Inr h'))"
    if i: "CustomLogger_init lvl = Inr lg"
  proof -
    have ti: "table_indent lg = NL # ''    ''" and ed: "eq_dict lg = eq_levels"
      using i by (rule init_fields(3), rule init_fields(1))
    have 1: "filter_logs wrap lg content \<noteq> Inl (KeyError k)"
      using filter_logs_error[OF ti, of wrap content "KeyError k"] by auto
    have 2: "\<exists>r. green_red lg s st = Inr r" for s st
      by (rule green_red_Inr[OF ti])
    have 3: "\<exists>r. checkmark lg st = Inr r"
      unfolding checkmark_def using 2 by simp
    have 4: "filter_append lg haystack hay req = Inl (KeyError req)" if "eq_levels req = None"
      using that ed by (simp add: filter_append_def getitem_def)
    have 5: "\<exists>h'. filter_append lg haystack hay req = Inr h'" if "eq_levels req \<noteq> None"
      using that ed by (auto simp: filter_append_def getitem_def)
    from 1 2 3 4 5 print_result[OF ed] show ?thesis
      unfolding header_def info_def by blast
  qed
  from a b c show ?thesis by blast
qed

theorem unknown_level_rejected_witness:
  "eq_levels ''loud'' = None \<and> CustomLogger_init ''loud'' = Inl (KeyError ''loud'')
   \<and> eq_levels ''verbose'' \<noteq> None \<and> CustomLogger_init ''verbose'' = Inr (new_logger 0)
   \<and> eq_levels ''details'' \<noteq> None
   \<and> (\<exists>out. info (new_logger 0) ''Found 3 resource(s)'' ''details'' 1 = Inr out)
   \<and> info (new_logger 0) ''Found 3 resource(s)'' ''loud'' 1 = Inl (KeyError ''loud'')"
proof -
  have n: "eq_levels ''loud'' = None" and v: "eq_levels ''verbose'' \<noteq> None"
    and d: "eq_levels ''details'' \<noteq> None"
    by (simp_all add: eq_levels_def)
  have i: "CustomLogger_init ''verbose'' = Inr (new_logger 0)"
    by (rule init_known)
  have 1: "CustomLogger_init ''loud'' = Inl (KeyError ''loud'')"
    using n by (rule unknown_level_rejected[where lvl = "''loud''", THEN conjunct1, THEN mp])
  note ok = unknown_level_rejected[where lvl = "''verbose''" and lg = "new_logger 0"
      and s = "''Found 3 resource(s)''" and ind = 1 and req = "''details''",
      THEN conjunct2, THEN conjunct2, THEN mp, OF i,
      THEN conjunct2, THEN conjunct2, THEN conjunct2, THEN conjunct2, THEN mp, OF d]
  note bad = unknown_level_rejected[where lvl = "''verbose''" and lg = "new_logger 0"
      and s = "''Found 3 resource(s)''" and ind = 1 and req = "''loud''",
      THEN conjunct2, THEN conjunct2, THEN mp, OF i,
      THEN conjunct2, THEN conjunct2, THEN conjunct2, THEN conjunct1, THEN mp, OF n]
  have 2: "\<exists>out. info (new_logger 0) ''Found 3 resource(s)'' ''details'' 1 = Inr out"
    by (rule ok[THEN conjunct2, THEN conjunct1])
  have 3: "info (new_logger 0) ''Found 3 resource(s)'' ''loud'' 1 = Inl (KeyError ''loud'')"
    by (rule bad[THEN conjunct2, THEN conjunct1])
  from n v d i 1 2 3 show ?thesis by blast
qed

section \<open>The model of \<^verbatim>\<open>textwrap.wrap\<close>\<close>

lemma match_len_pos: "rest \<noteq> [] \<Longrightarrow> 0 < match_len bef rest"
  by (cases rest) (auto simp: match_len_def dashes_word_def)

termination split_chunks_from
  by (relation "measure (\<lambda>(bef, rest). length rest)") (auto simp: match_len_pos)

lemma fill_line_append:
  "fill_line w n acc cs = (cl, len, rest) \<Longrightarrow> acc @ cs = cl @ rest"
  by (induction w n acc cs rule: fill_line.induct) (auto split: if_splits)

lemma fill_line_prefix:
  "fill_line w n acc cs = (cl, len, rest) \<Longrightarrow> \<exists>added. cl = acc @ added"
  by (induction w n acc cs rule: fill_line.induct) (auto split: if_splits)

lemma fill_line_rest:
  "fill_line w n acc cs = (cl, len, rest) \<Longrightarrow> rest \<noteq> [] \<Longrightarrow> w < len + length (hd rest)"
  by (induction w n acc cs rule: fill_line.induct) (auto split: if_splits)

lemma fill_line_len:
  "fill_line w n acc cs = (cl, len, rest) \<Longrightarrow> len + length (concat acc) = n + length (concat cl)"
  by (induction w n acc cs rule: fill_line.induct) (auto split: if_splits)


lemma long_word_end_pos:
  "0 < space_left \<Longrightarrow> 0 < long_word_end chunk space_left"
  by (auto simp: long_word_end_def split: option.splits)


lemma one_line_smaller:
  assumes "chunks \<noteq> []" "0 < wd" "one_line wd started chunks = (cur_line, chunks')"
  shows "chunks_size chunks' < chunks_size chunks"
proof -
  define chunks1 where "chunks1 = (if started \<and> chunks \<noteq> [] \<and> strip_empty (hd chunks) then tl chunks else chunks)"
  obtain cl len chunks2 where f: "fill_line wd 0 [] chunks1 = (cl, len, chunks2)"
    by (metis prod_cases3)
  have app: "chunks1 = cl @ chunks2"
    using fill_line_append[OF f] by simp
  have len: "len = length (concat cl)"
    using fill_line_len[OF f] by simp
  have rest: "chunks2 \<noteq> [] \<Longrightarrow> wd < len + length (hd chunks2)"
    using fill_line_rest[OF f] .
  have s1: "chunks_size chunks1 \<le> chunks_size chunks"
    using assms(1) by (cases chunks) (auto simp: chunks1_def chunks_size_def)
  have s1': "chunks_size chunks1 < chunks_size chunks" if "chunks1 \<noteq> chunks"
    using assms(1) that by (cases chunks) (auto simp: chunks1_def chunks_size_def split: if_splits)
  have s2: "chunks_size chunks2 + length cl \<le> chunks_size chunks1"
    using app by (auto simp: chunks_size_def)
  show ?thesis
  proof (cases "chunks2 \<noteq> [] \<and> length (hd chunks2) > wd")
    case True
    then obtain h t where c2: "chunks2 = h # t" by (cases chunks2) auto
    let ?e = "long_word_end h (wd - len)"
    from assms(3) f True c2 have c': "chunks' = drop ?e h # t"
      by (simp add: one_line_def chunks1_def Let_def split: if_splits prod.splits)
    show ?thesis
    proof (cases "cl = []")
      case True
      with len have "len = 0" by simp
      with assms(2) have "0 < ?e" by (simp add: long_word_end_pos)
      moreover from \<open>chunks2 \<noteq> [] \<and> length (hd chunks2) > wd\<close> c2 assms(2) have "0 < length h" by auto
      ultimately have "chunks_size chunks' < chunks_size chunks2"
        by (simp add: c' c2 chunks_size_def)
      with s1 s2 show ?thesis by simp
    next
      case False
      have "chunks_size chunks' \<le> chunks_size chunks2"
        by (simp add: c' c2 chunks_size_def)
      with False s1 s2 show ?thesis by (cases cl) auto
    qed
  next
    case False
    with assms(3) f have c': "chunks' = chunks2"
      by (auto simp: one_line_def chunks1_def Let_def split: if_splits prod.splits)
    show ?thesis
    proof (cases "cl = []")
      case True
      with app len have e: "chunks2 = chunks1" and "len = 0" by simp_all
      with rest False have "chunks1 = []" by auto
      with assms(1) have "chunks1 \<noteq> chunks" by simp
      with s1' e c' show ?thesis by simp
    next
      case False
      with s1 s2 c' show ?thesis by (cases cl) auto
    qed
  qed
qed

termination wrap_chunks
  by (relation "measure (\<lambda>(wd, started, chunks). chunks_size chunks)")
     (auto dest: one_line_smaller[OF _ _ sym])

declare wrap_chunks.simps [simp del]
declare split_chunks_from.simps [simp del]

























section \<open>The entry filter\<close>





lemma log_line_Inr:
  assumes "table_indent lg = NL # ''    ''" and "status l \<or> details l \<noteq> None"
  shows "\<exists>line. log_line wrap lg l = Inr line"
proof (cases "log_line wrap lg l")
  case (Inl e)
  then have "\<not> status l \<and> details l = None"
    using log_line_error[OF assms(1), of wrap l e] by simp
  with assms(2) show ?thesis by simp
next
  case (Inr line)
  then show ?thesis by blast
qed

lemma filter_logs_insert:
  assumes "filter_logs wrap lg pre = Inr o1" and "filter_logs wrap lg post = Inr o2"
    and "log_line wrap lg e = Inr line"
  shows "filter_logs wrap lg (pre @ e # post)
         = Inr (if status e = False \<or> level lg \<le> 0 then o1 @ line # o2 else o1 @ o2)"
proof -
  have "filter_logs wrap lg (e # post)
        = Inr (if status e = False \<or> level lg \<le> 0 then line # o2 else o2)"
    using assms(2,3) by simp
  with assms(1) show ?thesis
    by (simp only: filter_logs_append sum.case) simp
qed

lemma filter_logs_failure_included:
  assumes "CustomLogger_init lvl = Inr lg" and "\<not> status e" and "details e = Some d"
    and "filter_logs wrap lg pre = Inr o1" and "filter_logs wrap lg post = Inr o2"
  shows "\<exists>line. log_line wrap lg e = Inr line
           \<and> filter_logs wrap lg (pre @ e # post) = Inr (o1 @ line # o2)"
proof -
  have ti: "table_indent lg = NL # ''    ''"
    using assms(1) by (rule init_fields(3))
  obtain line where l: "log_line wrap lg e = Inr line"
    using log_line_Inr[OF ti, of e wrap] assms(3) by auto
  from filter_logs_insert[OF assms(4,5) l] assms(2) l show ?thesis by simp
qed

text \<open>
  C3. The claim is that \<^verbatim>\<open>filter_logs\<close> never raises, failing entries without details
  included. The code raises on such an entry: the failing branch hands \<^verbatim>\<open>log.details\<close>
  to \<^verbatim>\<open>textwrap.wrap\<close> without the guard \<^verbatim>\<open>log.details or ...\<close> of the passing branch.
\<close>

theorem filter_logs_failing_no_details_raises:
  "CustomLogger_init ''minimal'' = Inr (new_logger 10)
   \<and> filter_logs wrap (new_logger 10) [\<lparr>name = ''schema'', status = False, details = None\<rparr>]
       = Inl AttributeError"
  by (simp add: init_known log_line_def)

text \<open>
  C2. The claim is that a failing entry is in the output at every level. On a failing
  entry without details there is no output at any of the three levels: the call raises
  (the defect of C3). For a failing entry that has details the claim holds at every level,
  see \<open>filter_logs_failure_included\<close>.
\<close>

theorem filter_logs_failing_no_details_every_level:
  "filter_logs wrap (new_logger 10) [\<lparr>name = ''schema'', status = False, details = None\<rparr>]
       = Inl AttributeError
   \<and> filter_logs wrap (new_logger 5) [\<lparr>name = ''schema'', status = False, details = None\<rparr>]
       = Inl AttributeError
   \<and> filter_logs wrap (new_logger 0) [\<lparr>name = ''schema'', status = False, details = None\<rparr>]
       = Inl AttributeError"
  by (simp add: log_line_def)

text \<open>
  C1, as the spec states it, fails at level \<^verbatim>\<open>details\<close>: a passing entry is left out.
\<close>

theorem filter_logs_details_level_counterexample:
  "CustomLogger_init ''details'' = Inr (new_logger 5)
   \<and> status \<lparr>name = ''well-formed'', status = True, details = None\<rparr>
   \<and> filter_logs textwrap_wrap (new_logger 5)
        [\<lparr>name = ''well-formed'', status = True, details = None\<rparr>] = Inr []"
  by (simp add: init_known new_logger_def)

text \<open>
  C1, amended. When the entries before and after it render, a passing entry contributes its
  line to the output, at its place, exactly when the configured level is \<^verbatim>\<open>verbose\<close>; at
  \<^verbatim>\<open>minimal\<close> and at \<^verbatim>\<open>details\<close> it contributes nothing.
\<close>

theorem filter_logs_success_only_verbose:
  assumes "CustomLogger_init lvl = Inr lg" and "status e"
    and "filter_logs wrap lg pre = Inr o1" and "filter_logs wrap lg post = Inr o2"
  shows "\<exists>line. log_line wrap lg e = Inr line
           \<and> filter_logs wrap lg (pre @ e # post)
               = Inr (if lvl = ''verbose'' then o1 @ line # o2 else o1 @ o2)"
proof -
  have ti: "table_indent lg = NL # ''    ''"
    using assms(1) by (rule init_fields(3))
  obtain line where l: "log_line wrap lg e = Inr line"
    using log_line_Inr[OF ti, of e wrap] assms(2) by auto
  from init_fields(5)[OF assms(1)] have "(level lg \<le> 0) = (lvl = ''verbose'')"
    by auto
  with filter_logs_insert[OF assms(3,4) l] assms(2) l show ?thesis by simp
qed

theorem filter_logs_success_only_verbose_witness:
  "CustomLogger_init ''verbose'' = Inr (new_logger 0)
   \<and> status \<lparr>name = ''well-formed'', status = True, details = None\<rparr>
   \<and> filter_logs textwrap_wrap (new_logger 0) [] = Inr []
   \<and> (\<exists>line. log_line textwrap_wrap (new_logger 0)
                 \<lparr>name = ''well-formed'', status = True, details = None\<rparr> = Inr line
          \<and> filter_logs textwrap_wrap (new_logger 0)
               [\<lparr>name = ''well-formed'', status = True, details = None\<rparr>] = Inr [line])"
proof -
  have i: "CustomLogger_init ''verbose'' = Inr (new_logger 0)"
    by (rule init_known)
  have s: "status \<lparr>name = ''well-formed'', status = True, details = None\<rparr>"
    by simp
  have n: "filter_logs textwrap_wrap (new_logger 0) [] = Inr []"
    by simp
  from filter_logs_success_only_verbose[OF i s n n] i s n show ?thesis
    by simp
qed






end
